theory Spec2Isabelle
  imports Main "HOL-Library.Word"
begin

unbundle bit_operations_syntax

section \<open>The packed dual counter (lazy\_pool.hpp, namespace impl)\<close>

text \<open>
  \<^verbatim>\<open>std::atomic_uint64_t dual_count\<close> packs two 32-bit lanes into one 64-bit word: the
  low lane counts thieves, the high lane counts active workers. The four constants are
  transcribed from lines 43-47 of lazy\_pool.hpp.
\<close>

type_synonym u64 = "64 word"

definition k_thieve :: u64 where
  "k_thieve = 1"

definition k_active :: u64 where
  "k_active = push_bit 32 k_thieve"

definition k_thieve_mask :: u64 where
  "k_thieve_mask = k_active - 1"

definition k_active_mask :: u64 where
  "k_active_mask = NOT k_thieve_mask"

text \<open>
  The reads the code performs on a value of the counter: \<^verbatim>\<open>prev_dual & k_thieve_mask\<close>
  and \<^verbatim>\<open>prev_dual & k_active_mask\<close> (the latter is only ever compared with zero).
  \<open>active_lane\<close> is the high lane read as a number, \<open>T\<close> and \<open>A\<close> are the two lanes as
  natural numbers.
\<close>

definition thief_lane :: "u64 \<Rightarrow> u64" where
  "thief_lane w = w AND k_thieve_mask"

definition active_bits :: "u64 \<Rightarrow> u64" where
  "active_bits w = w AND k_active_mask"

definition active_lane :: "u64 \<Rightarrow> u64" where
  "active_lane w = drop_bit 32 w"

definition T :: "u64 \<Rightarrow> nat" where
  "T w = unat (thief_lane w)"

definition A :: "u64 \<Rightarrow> nat" where
  "A w = unat (active_lane w)"



subsection \<open>Lane arithmetic\<close>

lemma k_active_val: "k_active = 4294967296"
  by (simp add: k_active_def k_thieve_def)

lemma k_thieve_mask_val: "k_thieve_mask = mask 32"
  by (simp add: k_thieve_mask_def k_active_val mask_eq_exp_minus_1)

lemma round_trip_const: "k_active - k_thieve = 4294967295"
  by (simp add: k_active_val k_thieve_def)

lemma T_mod: "T w = unat w mod 4294967296"
  by (simp add: T_def thief_lane_def k_thieve_mask_val flip: take_bit_eq_mask)
     (simp add: take_bit_eq_mod unat_mod)

lemma A_div: "A w = unat w div 4294967296"
  by (simp add: A_def active_lane_def drop_bit_eq_div unat_div)

lemma high_bits_zero_iff: "((w::u64) AND NOT (mask 32) = 0) = (drop_bit 32 w = 0)"
proof
  assume a: "w AND NOT (mask 32) = 0"
  show "drop_bit 32 w = 0"
  proof (rule bit_eqI)
    fix n
    have "\<not> bit (w AND NOT (mask 32)) (32 + n)" using a by simp
    then show "bit (drop_bit 32 w) n = bit (0::u64) n"
      by (auto simp: bit_simps dest: bit_imp_le_length)
  qed
next
  assume a: "drop_bit 32 w = 0"
  show "w AND NOT (mask 32) = 0"
  proof (rule bit_eqI)
    fix n
    have "\<not> bit (drop_bit 32 w) (n - 32)" using a by simp
    then show "bit (w AND NOT (mask 32)) n = bit (0::u64) n"
      by (cases "n < 32") (auto simp: bit_simps)
  qed
qed

lemma active_bits_iff: "(active_bits w \<noteq> 0) = (A w \<noteq> 0)"
  by (simp add: active_bits_def k_active_mask_def k_thieve_mask_val high_bits_zero_iff
      A_def active_lane_def unat_eq_0)

lemma thief_lane_one_iff: "(thief_lane w = 1) = (T w = 1)"
proof -
  have "(thief_lane w = 1) = (unat (thief_lane w) = unat (1::u64))"
    by (simp only: word_unat_eq_iff)
  then show ?thesis
    by (simp add: T_def)
qed

lemma unat_u64_less: "unat (w::u64) < 18446744073709551616"
  using unsigned_less [of w] by simp

lemma lanes_of_nat:
  assumes "t < 4294967296"
  shows "(a * 4294967296 + t) mod 4294967296 = (t::nat)"
    and "(a * 4294967296 + t) div 4294967296 = a"
  using assms by simp_all

lemma lane_split:
  obtains a t where "unat (w::u64) = a * 4294967296 + t" "t < 4294967296"
    "a < 4294967296" "T w = t" "A w = a"
proof -
  have "unat w = A w * 4294967296 + T w"
    by (simp add: T_mod A_div)
  moreover have "T w < 4294967296"
    by (simp add: T_mod)
  moreover have "A w < 4294967296"
    using unat_u64_less [of w] by (simp add: A_div)
  ultimately show ?thesis
    using that by blast
qed

lemma T_less: "T w < 4294967296"
  by (simp add: T_mod)

lemma A_less: "A w < 4294967296"
  using unat_u64_less [of w] by (simp add: A_div)

text \<open>Thief entry, \<^verbatim>\<open>fetch_add(k_thieve)\<close>.\<close>

lemma lane_entry:
  assumes "T w < 4294967295"
  shows "T (w + k_thieve) = T w + 1 \<and> A (w + k_thieve) = A w"
proof -
  obtain a t where w: "unat w = a * 4294967296 + t" "t < 4294967296" "a < 4294967296"
    "T w = t" "A w = a"
    by (rule lane_split)
  have "unat (w + k_thieve) = (a * 4294967296 + (t + 1)) mod 18446744073709551616"
    by (simp add: unat_word_ariths k_thieve_def w)
  also have "\<dots> = a * 4294967296 + (t + 1)"
    using w assms by simp
  finally have u: "unat (w + k_thieve) = a * 4294967296 + (t + 1)" .
  show ?thesis
    using assms w(4,5)
    unfolding T_mod [of "w + k_thieve"] A_div [of "w + k_thieve"] u
    by (simp only: lanes_of_nat)
qed

text \<open>Park attempt, \<^verbatim>\<open>fetch_sub(k_thieve)\<close>.\<close>

lemma lane_park:
  assumes "1 \<le> T w"
  shows "T (w - k_thieve) = T w - 1 \<and> A (w - k_thieve) = A w"
proof -
  obtain a t where w: "unat w = a * 4294967296 + t" "t < 4294967296" "a < 4294967296"
    "T w = t" "A w = a"
    by (rule lane_split)
  have "unat k_thieve \<le> unat w"
    using w assms by (simp add: k_thieve_def)
  then have "unat (w - k_thieve) = unat w - unat k_thieve"
    by (simp add: unat_sub_if')
  also have "\<dots> = a * 4294967296 + (t - 1)"
    using w assms by (simp add: k_thieve_def)
  finally have u: "unat (w - k_thieve) = a * 4294967296 + (t - 1)" .
  have "t - 1 < 4294967296"
    using w by simp
  then show ?thesis
    using w(4,5)
    unfolding T_mod [of "w - k_thieve"] A_div [of "w - k_thieve"] u
    by (simp only: lanes_of_nat)
qed

text \<open>Promotion, \<^verbatim>\<open>fetch_add(k_active - k_thieve)\<close>.\<close>

lemma lane_promote:
  assumes "1 \<le> T w" and "A w < 4294967295"
  shows "T (w + (k_active - k_thieve)) = T w - 1 \<and> A (w + (k_active - k_thieve)) = A w + 1
    \<and> unat (w + (k_active - k_thieve)) = unat w + 4294967295"
proof -
  obtain a t where w: "unat w = a * 4294967296 + t" "t < 4294967296" "a < 4294967296"
    "T w = t" "A w = a"
    by (rule lane_split)
  have "unat (w + (k_active - k_thieve)) =
      (a * 4294967296 + t + 4294967295) mod 18446744073709551616"
    by (simp add: unat_word_ariths round_trip_const w)
  also have "\<dots> = a * 4294967296 + t + 4294967295"
    using w assms by simp
  finally have u0: "unat (w + (k_active - k_thieve)) = a * 4294967296 + t + 4294967295" .
  then have u: "unat (w + (k_active - k_thieve)) = (a + 1) * 4294967296 + (t - 1)"
    using w assms by simp
  have "t - 1 < 4294967296"
    using w by simp
  then have "T (w + (k_active - k_thieve)) = T w - 1 \<and> A (w + (k_active - k_thieve)) = A w + 1"
    using w(4,5)
    unfolding T_mod [of "w + (k_active - k_thieve)"] A_div [of "w + (k_active - k_thieve)"] u
    by (simp only: lanes_of_nat)
  then show ?thesis
    using u0 w(1) by simp
qed

text \<open>Demotion, \<^verbatim>\<open>fetch_sub(k_active - k_thieve)\<close>.\<close>

lemma lane_demote:
  assumes "1 \<le> A w" and "T w < 4294967295"
  shows "T (w - (k_active - k_thieve)) = T w + 1 \<and> A (w - (k_active - k_thieve)) = A w - 1
    \<and> unat (w - (k_active - k_thieve)) = unat w - 4294967295"
proof -
  obtain a t where w: "unat w = a * 4294967296 + t" "t < 4294967296" "a < 4294967296"
    "T w = t" "A w = a"
    by (rule lane_split)
  have "unat (k_active - k_thieve) \<le> unat w"
    using w assms by (simp add: round_trip_const)
  then have "unat (w - (k_active - k_thieve)) = unat w - unat (k_active - k_thieve)"
    by (simp add: unat_sub_if')
  also have "\<dots> = a * 4294967296 + t - 4294967295"
    using w by (simp add: round_trip_const)
  finally have u0: "unat (w - (k_active - k_thieve)) = a * 4294967296 + t - 4294967295" .
  then have u: "unat (w - (k_active - k_thieve)) = (a - 1) * 4294967296 + (t + 1)"
    using w assms by (simp add: algebra_simps)
  have "t + 1 < 4294967296"
    using w assms by simp
  then have "T (w - (k_active - k_thieve)) = T w + 1 \<and> A (w - (k_active - k_thieve)) = A w - 1"
    using w(4,5)
    unfolding T_mod [of "w - (k_active - k_thieve)"] A_div [of "w - (k_active - k_thieve)"] u
    by (simp only: lanes_of_nat)
  then show ?thesis
    using u0 w(1) by simp
qed

section \<open>Thread-local fibre and context (tls.hpp)\<close>

text \<open>
  The four thread-local variables of \<^verbatim>\<open>impl::tls\<close> as one record per thread. A
  \<^verbatim>\<open>manual_lifetime<X>\<close> is raw storage: \<^verbatim>\<open>construct\<close> builds an object in it,
  \<^verbatim>\<open>destroy\<close> runs the destructor, \<^verbatim>\<open>data()\<close> is the address of the storage and is
  the same whether or not an object lives there. \<open>thread_context\<close> holds the notify
  function the live context was built from, \<open>thread_fibre\<close> says whether a fibre lives in
  its storage, \<open>context_data\<close> is the address \<^verbatim>\<open>thread_context.data()\<close>, and
  \<open>lifetime_log\<close> lists the constructions and destructions performed so far.
\<close>

datatype exn = Runtime_error string | Thrown nat

datatype lifetime_event =
    Construct_context nat
  | Destroy_context
  | Construct_fibre
  | Destroy_fibre

record tls =
  has_fibre :: bool
  thread_fibre :: bool
  has_context :: bool
  thread_context :: "nat option"
  context_data :: nat
  lifetime_log :: "lifetime_event list"

text \<open>The \<^verbatim>\<open>constinit\<close> state of a thread whose context storage sits at address \<open>a\<close>.\<close>

definition tls_init :: "nat \<Rightarrow> tls" where
  "tls_init a = \<lparr>has_fibre = False, thread_fibre = False, has_context = False,
     thread_context = None, context_data = a, lifetime_log = []\<rparr>"

text \<open>
  \<^verbatim>\<open>worker_init(notify)\<close>. The constructors of \<^verbatim>\<open>full_context\<close> and \<^verbatim>\<open>fibre\<close> are not
  part of this file; whether each throws is an argument (\<open>None\<close>: it completes,
  \<open>Some e\<close>: it throws \<open>e\<close>). A throw out of the function is \<open>Inl\<close>, a normal return
  of the context pointer is \<open>Inr\<close>; the state that is left behind is returned in both
  cases. The handler \<^verbatim>\<open>LF_CATCH_ALL { thread_context.destroy(); }\<close> holds no
  \<^verbatim>\<open>LF_RETHROW\<close>, so control continues after it.
\<close>

definition worker_init :: "nat \<Rightarrow> exn option \<Rightarrow> exn option \<Rightarrow> tls \<Rightarrow> (exn + nat) \<times> tls" where
  "worker_init notify context_ctor fibre_ctor s =
     (if has_context s \<and> has_fibre s then
        (Inl (Runtime_error ''Worker already initialized''), s)
      else
        (case context_ctor of
           Some e \<Rightarrow> (Inl e, s)
         | None \<Rightarrow>
            (let s1 = s\<lparr>thread_context := Some notify,
                        lifetime_log := lifetime_log s @ [Construct_context notify]\<rparr>;
                 context = context_data s1;
                 s2 = (case fibre_ctor of
                         None \<Rightarrow> s1\<lparr>thread_fibre := True,
                                    lifetime_log := lifetime_log s1 @ [Construct_fibre]\<rparr>
                       | Some e \<Rightarrow> s1\<lparr>thread_context := None,
                                      lifetime_log := lifetime_log s1 @ [Destroy_context]\<rparr>);
                 s3 = s2\<lparr>has_fibre := True\<rparr>;
                 s4 = s3\<lparr>has_context := True\<rparr>
             in (Inr context, s4))))"

text \<open>\<^verbatim>\<open>finalize(worker)\<close>.\<close>

definition finalize :: "nat \<Rightarrow> tls \<Rightarrow> (exn + unit) \<times> tls" where
  "finalize worker s =
     (if worker \<noteq> context_data s then
        (Inl (Runtime_error ''Finalize called on wrong thread''), s)
      else if \<not> has_context s \<or> \<not> has_fibre s then
        (Inl (Runtime_error ''Finalize called before initialization or after finalization''), s)
      else
        (let s1 = s\<lparr>thread_context := None,
                    lifetime_log := lifetime_log s @ [Destroy_context]\<rparr>;
             s2 = s1\<lparr>thread_fibre := False,
                     lifetime_log := lifetime_log s1 @ [Destroy_fibre]\<rparr>;
             s3 = s2\<lparr>has_fibre := False\<rparr>;
             s4 = s3\<lparr>has_context := False\<rparr>
         in (Inr (), s4)))"

subsection \<open>A throwing fibre constructor\<close>

text \<open>
  Claim C2 says that when the fibre constructor throws, worker\_init destroys the context
  and rethrows, leaving the guards clear. The function as written destroys the context and
  then falls out of the handler: on a fresh thread it returns the address of the destroyed
  context normally, with both guards set and no fibre constructed.
\<close>

theorem worker_init_fibre_throw_returns:
  "worker_init notify None (Some e) (tls_init a) =
     (Inr a, \<lparr>has_fibre = True, thread_fibre = False, has_context = True,
               thread_context = None, context_data = a,
               lifetime_log = [Construct_context notify, Destroy_context]\<rparr>)"
  by (simp add: worker_init_def tls_init_def)

subsection \<open>Misuse detection\<close>

lemma worker_init_guards:
  assumes "worker_init notify cc fc s = (Inr c, s')"
  shows "has_context s' \<and> has_fibre s'"
  using assms
  by (auto simp: worker_init_def Let_def split: if_splits option.splits)

lemma finalize_guards:
  assumes "finalize w s = (Inr u, s')"
  shows "\<not> has_context s' \<and> \<not> has_fibre s' \<and> context_data s' = context_data s"
  using assms
  by (auto simp: finalize_def Let_def split: if_splits)

text \<open>
  Claim C3. worker\_init on a thread whose two guards are set throws and leaves the
  thread-local state as it was (nothing is constructed); this is the state every normal
  return of worker\_init leaves, so a second init with no finalize in between throws.
  finalize throws and leaves the state as it was (nothing is destroyed) when the pointer
  is not this thread's context storage, when a guard is clear, on a thread that never ran
  worker\_init, and when called again after a finalize that returned.
\<close>

theorem misuse_detected:
  "(has_context s \<and> has_fibre s \<longrightarrow>
      worker_init notify cc fc s = (Inl (Runtime_error ''Worker already initialized''), s)) \<and>
   (worker_init notify cc fc s = (Inr c, s') \<longrightarrow>
      worker_init notify' cc' fc' s' = (Inl (Runtime_error ''Worker already initialized''), s')) \<and>
   (w \<noteq> context_data s \<longrightarrow>
      finalize w s = (Inl (Runtime_error ''Finalize called on wrong thread''), s)) \<and>
   (\<not> has_context s \<or> \<not> has_fibre s \<longrightarrow> (\<exists>e. finalize w s = (Inl e, s))) \<and>
   (\<exists>e. finalize w (tls_init a) = (Inl e, tls_init a)) \<and>
   (finalize w s = (Inr (), t) \<longrightarrow> (\<exists>e. finalize w' t = (Inl e, t)))"
proof (intro conjI impI)
  assume "has_context s \<and> has_fibre s"
  then show "worker_init notify cc fc s = (Inl (Runtime_error ''Worker already initialized''), s)"
    by (simp add: worker_init_def)
next
  assume "worker_init notify cc fc s = (Inr c, s')"
  then have "has_context s' \<and> has_fibre s'"
    by (rule worker_init_guards)
  then show "worker_init notify' cc' fc' s' =
      (Inl (Runtime_error ''Worker already initialized''), s')"
    by (simp add: worker_init_def)
next
  assume "w \<noteq> context_data s"
  then show "finalize w s = (Inl (Runtime_error ''Finalize called on wrong thread''), s)"
    by (simp add: finalize_def)
next
  assume "\<not> has_context s \<or> \<not> has_fibre s"
  then show "\<exists>e. finalize w s = (Inl e, s)"
    by (auto simp: finalize_def)
next
  show "\<exists>e. finalize w (tls_init a) = (Inl e, tls_init a)"
    by (simp add: finalize_def tls_init_def)
next
  assume "finalize w s = (Inr (), t)"
  then have "\<not> has_context t \<and> \<not> has_fibre t"
    using finalize_guards by blast
  then show "\<exists>e. finalize w' t = (Inl e, t)"
    by (auto simp: finalize_def)
qed

text \<open>
  One thread at address 100: init, a second init (refused), finalize with a foreign
  pointer (refused), finalize, a second finalize (refused).
\<close>

theorem misuse_detected_witness:
  "fst (worker_init 7 None None (tls_init 100)) = Inr 100 \<and>
   fst (worker_init 8 None None (snd (worker_init 7 None None (tls_init 100)))) =
     Inl (Runtime_error ''Worker already initialized'') \<and>
   fst (finalize 5 (snd (worker_init 7 None None (tls_init 100)))) =
     Inl (Runtime_error ''Finalize called on wrong thread'') \<and>
   fst (finalize 100 (snd (worker_init 7 None None (tls_init 100)))) = Inr () \<and>
   fst (finalize 100 (snd (finalize 100 (snd (worker_init 7 None None (tls_init 100)))))) =
     Inl (Runtime_error ''Finalize called before initialization or after finalization'') \<and>
   fst (finalize 100 (tls_init 100)) =
     Inl (Runtime_error ''Finalize called before initialization or after finalization'')"
proof -
  let ?s1 = "snd (worker_init 7 None None (tls_init 100))"
  let ?s2 = "snd (finalize 100 ?s1)"
  have i: "worker_init 7 None None (tls_init 100) = (Inr 100, ?s1)"
    by (simp add: worker_init_def tls_init_def)
  have f: "finalize 100 ?s1 = (Inr (), ?s2)"
    by (simp add: finalize_def worker_init_def tls_init_def)
  have d: "5 \<noteq> context_data ?s1"
    by (simp add: worker_init_def tls_init_def)
  have c1: "fst (worker_init 7 None None (tls_init 100)) = Inr 100"
    by (simp add: worker_init_def tls_init_def)
  have c2: "fst (worker_init 8 None None ?s1) =
      Inl (Runtime_error ''Worker already initialized'')"
    using misuse_detected [where s = "tls_init 100" and notify = 7 and cc = None
        and fc = None and c = 100 and s' = ?s1 and notify' = 8 and cc' = None and fc' = None]
      i
    by (metis fst_conv)
  have c3: "fst (finalize 5 ?s1) = Inl (Runtime_error ''Finalize called on wrong thread'')"
    using misuse_detected [where s = ?s1 and w = 5] d
    by (metis fst_conv)
  have c4: "fst (finalize 100 ?s1) = Inr ()"
    by (simp add: finalize_def worker_init_def tls_init_def)
  have c5: "fst (finalize 100 ?s2) =
      Inl (Runtime_error ''Finalize called before initialization or after finalization'')"
    by (simp add: finalize_def worker_init_def tls_init_def)
  have c6: "fst (finalize 100 (tls_init 100)) =
      Inl (Runtime_error ''Finalize called before initialization or after finalization'')"
    by (simp add: finalize_def tls_init_def)
  from c1 c2 c3 c4 c5 c6 show ?thesis
    by (intro conjI)
qed

section \<open>The lazy pool (lazy\_pool.hpp)\<close>

subsection \<open>Shared state, worker control points, calls\<close>

text \<open>
  A handle is a stolen task (\<^verbatim>\<open>task_h\<close>) or the chain of submitted tasks that
  \<^verbatim>\<open>try_get_submitted\<close> hands over (\<^verbatim>\<open>intruded_h\<close>); tasks are opaque and named by a
  number.
\<close>

datatype handle = Task nat | Intruded "nat list"

text \<open>
  The control points of \<^verbatim>\<open>lazy_context::work\<close>, one for each call on shared state that
  the worker is about to make. \<open>WakeUp\<close> and \<open>ContinueAsThief\<close> are the two labels of
  the source; \<open>Promote\<close>, \<open>NotifyLast\<close>, \<open>Resuming\<close> and \<open>Demote\<close> are the four
  statements of \<^verbatim>\<open>thief_round_trip\<close>, which always returns to
  \<^verbatim>\<open>continue_as_thief\<close>. Local variables that are live at a control point are its
  arguments (the handle, the key returned by \<^verbatim>\<open>prepare_wait\<close>). \<open>Parked\<close> is a thread
  blocked inside \<^verbatim>\<open>notifier.wait\<close>, \<open>Exited\<close> one that has returned from \<^verbatim>\<open>work\<close>.
\<close>

datatype pc =
    WakeUp
  | ContinueAsThief
  | TrySteal
  | PrepareWait
  | Recheck nat
  | CancelThenTrip "nat list"
  | CheckStop nat
  | CancelThenExit
  | ParkAttempt nat
  | CallWait nat
  | Parked nat
  | Promote handle
  | NotifyLast handle
  | Resuming handle
  | Demote
  | Exited

datatype actor = Worker nat | External

datatype call =
    FetchAdd u64
  | FetchSub u64
  | NotifyOne
  | NotifyAll
  | PrepareWaitCall
  | CancelWait
  | Wait nat
  | TestStop
  | SetStop
  | Resume nat
  | Enqueue nat "nat list"

text \<open>
  The pool: the three members of \<^verbatim>\<open>remote_atomics\<close> (the notifier is kept as the
  sequence of calls made on it, in \<open>trace\<close>, together with every other call on shared
  state), the bounds of \<^verbatim>\<open>m_dist\<close>, the vector of contexts (each named by its index)
  and, for each worker thread, the control point it has reached in \<^verbatim>\<open>work\<close>.
\<close>

record lazy_pool =
  dual_count :: u64
  stop :: bool
  m_dist :: "u64 \<times> u64"
  m_contexts :: "nat list"
  m_workers :: "pc list"
  trace :: "(actor \<times> call) list"

text \<open>
  What the collaborators that lazy\_pool.hpp only includes answer when the worker calls
  them: \<^verbatim>\<open>try_get_submitted\<close>, \<^verbatim>\<open>try_steal\<close> and \<^verbatim>\<open>prepare_wait\<close>. They are
  arguments of a step: it reads the answer of the call it makes and ignores the others.
\<close>

record answers =
  submitted :: "nat list option"
  stolen :: "nat option"
  wait_key :: nat

subsection \<open>Atomic operations\<close>

definition emit :: "actor \<Rightarrow> call \<Rightarrow> lazy_pool \<Rightarrow> lazy_pool" where
  "emit a c p = p\<lparr>trace := trace p @ [(a, c)]\<rparr>"

definition goto :: "nat \<Rightarrow> pc \<Rightarrow> lazy_pool \<Rightarrow> lazy_pool" where
  "goto i l p = p\<lparr>m_workers := (m_workers p)[i := l]\<rparr>"

text \<open>\<^verbatim>\<open>dual_count.fetch_add(d)\<close> and \<^verbatim>\<open>dual_count.fetch_sub(d)\<close>: the value before, and the pool after.\<close>

definition fetch_add :: "actor \<Rightarrow> u64 \<Rightarrow> lazy_pool \<Rightarrow> u64 \<times> lazy_pool" where
  "fetch_add a d p = (dual_count p, emit a (FetchAdd d) (p\<lparr>dual_count := dual_count p + d\<rparr>))"

definition fetch_sub :: "actor \<Rightarrow> u64 \<Rightarrow> lazy_pool \<Rightarrow> u64 \<times> lazy_pool" where
  "fetch_sub a d p = (dual_count p, emit a (FetchSub d) (p\<lparr>dual_count := dual_count p - d\<rparr>))"

text \<open>
  \<^verbatim>\<open>resume(handle)\<close>, or \<^verbatim>\<open>for_each(handle, resume)\<close> for a chain, in chain order.
\<close>

fun chain :: "handle \<Rightarrow> nat list" where
  "chain (Task t) = [t]"
| "chain (Intruded ts) = ts"

definition resume :: "actor \<Rightarrow> handle \<Rightarrow> lazy_pool \<Rightarrow> lazy_pool" where
  "resume a h p = p\<lparr>trace := trace p @ map (\<lambda>t. (a, Resume t)) (chain h)\<rparr>"

subsection \<open>One step of a worker\<close>

text \<open>
  \<open>work_at i ora l p\<close> is the next call of worker \<open>i\<close> standing at control point \<open>l\<close>,
  following \<^verbatim>\<open>lazy_context::work\<close> (lines 155-243) and \<^verbatim>\<open>thief_round_trip\<close>
  (lines 79-97) statement by statement. A thread that has returned makes no step; the
  \<^verbatim>\<open>worker_finalize\<close> deferred to the return touches thread-local state only.

  Modelled from the spec: \<^verbatim>\<open>event_count::wait(key)\<close> blocks until a notification and
  may also return spuriously. The call is the step from \<open>CallWait\<close> to \<open>Parked\<close>, its
  return the step from \<open>Parked\<close> to \<open>WakeUp\<close>, which may be taken at any time.
\<close>

fun work_at :: "nat \<Rightarrow> answers \<Rightarrow> pc \<Rightarrow> lazy_pool \<Rightarrow> lazy_pool option" where
  "work_at i ora WakeUp p =
     Some (goto i ContinueAsThief (snd (fetch_add (Worker i) k_thieve p)))"
| "work_at i ora ContinueAsThief p =
     (case submitted ora of
        Some submission \<Rightarrow> Some (goto i (Promote (Intruded submission)) p)
      | None \<Rightarrow> Some (goto i TrySteal p))"
| "work_at i ora TrySteal p =
     (case stolen ora of
        Some t \<Rightarrow> Some (goto i (Promote (Task t)) p)
      | None \<Rightarrow> Some (goto i PrepareWait p))"
| "work_at i ora PrepareWait p =
     Some (goto i (Recheck (wait_key ora)) (emit (Worker i) PrepareWaitCall p))"
| "work_at i ora (Recheck key) p =
     (case submitted ora of
        Some submission \<Rightarrow> Some (goto i (CancelThenTrip submission) p)
      | None \<Rightarrow> Some (goto i (CheckStop key) p))"
| "work_at i ora (CancelThenTrip submission) p =
     Some (goto i (Promote (Intruded submission)) (emit (Worker i) CancelWait p))"
| "work_at i ora (CheckStop key) p =
     (if stop p then Some (goto i CancelThenExit (emit (Worker i) TestStop p))
      else Some (goto i (ParkAttempt key) (emit (Worker i) TestStop p)))"
| "work_at i ora CancelThenExit p =
     Some (goto i Exited (emit (Worker i) CancelWait p))"
| "work_at i ora (ParkAttempt key) p =
     (let (prev_dual, p') = fetch_sub (Worker i) k_thieve p;
          prev_thieves = prev_dual AND k_thieve_mask;
          prev_actives = prev_dual AND k_active_mask
      in if prev_thieves = 1 \<and> prev_actives \<noteq> 0 then Some (goto i WakeUp p')
         else Some (goto i (CallWait key) p'))"
| "work_at i ora (CallWait key) p =
     Some (goto i (Parked key) (emit (Worker i) (Wait key) p))"
| "work_at i ora (Parked key) p =
     Some (goto i WakeUp p)"
| "work_at i ora (Promote h) p =
     (let (prev_dual, p') = fetch_add (Worker i) (k_active - k_thieve) p;
          prev_thieves = prev_dual AND k_thieve_mask
      in if prev_thieves = 1 then Some (goto i (NotifyLast h) p')
         else Some (goto i (Resuming h) p'))"
| "work_at i ora (NotifyLast h) p =
     Some (goto i (Resuming h) (emit (Worker i) NotifyOne p))"
| "work_at i ora (Resuming h) p =
     Some (goto i Demote (resume (Worker i) h p))"
| "work_at i ora Demote p =
     Some (goto i ContinueAsThief (snd (fetch_sub (Worker i) (k_active - k_thieve) p)))"
| "work_at i ora Exited p = None"

definition work_step :: "nat \<Rightarrow> answers \<Rightarrow> lazy_pool \<Rightarrow> lazy_pool option" where
  "work_step i ora p =
     (if i < length (m_workers p) then work_at i ora (m_workers p ! i) p else None)"

subsection \<open>The pool facade\<close>

text \<open>
  \<^verbatim>\<open>lazy_context::submit(node)\<close>: the inherited \<^verbatim>\<open>numa_worker_context::submit\<close>, and
  then \<^verbatim>\<open>notifier.notify_all()\<close>.

  Modelled from the spec: the inherited \<^verbatim>\<open>submit\<close> pushes the node on the context's
  submission queue; it is recorded as the call \<open>Enqueue\<close> on that context.
\<close>

definition submit :: "nat \<Rightarrow> nat list \<Rightarrow> lazy_pool \<Rightarrow> lazy_pool" where
  "submit ctx node p = emit External NotifyAll (emit External (Enqueue ctx node) p)"

text \<open>
  \<^verbatim>\<open>schedule(node)\<close> is \<^verbatim>\<open>m_contexts[m_dist(m_rng)]->submit(node)\<close>. The number drawn
  from the distribution is the argument \<open>r\<close>; \<^verbatim>\<open>std::uniform_int_distribution\<close> draws
  uniformly from the closed range between its two bounds, which \<open>in_support\<close> says.
  Indexing the vector outside its length is undefined behaviour, \<open>None\<close>.
\<close>

definition in_support :: "u64 \<times> u64 \<Rightarrow> u64 \<Rightarrow> bool" where
  "in_support d r = (fst d \<le> r \<and> r \<le> snd d)"

definition schedule :: "u64 \<Rightarrow> nat list \<Rightarrow> lazy_pool \<Rightarrow> lazy_pool option" where
  "schedule r node p =
     (if unat r < length (m_contexts p) then Some (submit (m_contexts p ! unat r) node p)
      else None)"

text \<open>
  \<^verbatim>\<open>clean_up\<close> up to the joins: set the stop flag, then wake everyone.
\<close>

definition clean_up :: "lazy_pool \<Rightarrow> lazy_pool" where
  "clean_up p = emit External NotifyAll (emit External SetStop (p\<lparr>stop := True\<rparr>))"

text \<open>
  The constructor for \<open>n\<close> workers (\<^verbatim>\<open>std::size_t\<close> is 64 bits wide): the
  distribution gets the bounds \<open>0\<close> and \<open>n - 1\<close>, the loop pushes \<open>n\<close> contexts, and
  one thread is started for each node that \<^verbatim>\<open>numa_topology::distribute\<close> returns,
  each at the head of \<^verbatim>\<open>work\<close>. Before the label \<^verbatim>\<open>wake_up\<close> a worker touches
  thread-local state only, so it starts at \<open>WakeUp\<close>. The handler that runs
  \<^verbatim>\<open>clean_up\<close> when starting a thread throws is left out.

  Modelled from the spec: \<^verbatim>\<open>distribute\<close> returns one node for each of the \<open>n\<close>
  contexts, so \<open>n\<close> threads are started.
\<close>

definition lazy_pool_ctor :: "u64 \<Rightarrow> lazy_pool" where
  "lazy_pool_ctor n =
     \<lparr>dual_count = 0, stop = False, m_dist = (0, n - 1), m_contexts = [0..<unat n],
      m_workers = replicate (unat n) WakeUp, trace = []\<rparr>"

subsection \<open>Interleavings\<close>

text \<open>
  What can happen next to a pool: some worker makes its next call, an outside thread
  calls \<^verbatim>\<open>schedule\<close> with some number drawn, or the owner starts \<^verbatim>\<open>clean_up\<close>.
\<close>

datatype action = Work nat answers | Schedule u64 "nat list" | CleanUp

fun pool_step :: "action \<Rightarrow> lazy_pool \<Rightarrow> lazy_pool option" where
  "pool_step (Work i ora) p = work_step i ora p"
| "pool_step (Schedule r node) p = schedule r node p"
| "pool_step CleanUp p = Some (clean_up p)"

fun exec :: "action list \<Rightarrow> lazy_pool \<Rightarrow> lazy_pool option" where
  "exec [] p = Some p"
| "exec (a # as) p = (case pool_step a p of None \<Rightarrow> None | Some p' \<Rightarrow> exec as p')"

text \<open>\<open>run_worker i ora k\<close>: worker \<open>i\<close> makes its next \<open>k\<close> calls with no other thread in between.\<close>

fun run_worker :: "nat \<Rightarrow> answers \<Rightarrow> nat \<Rightarrow> lazy_pool \<Rightarrow> lazy_pool option" where
  "run_worker i ora 0 p = Some p"
| "run_worker i ora (Suc k) p =
     (case work_step i ora p of None \<Rightarrow> None | Some p' \<Rightarrow> run_worker i ora k p')"

inductive reachable :: "u64 \<Rightarrow> lazy_pool \<Rightarrow> bool" for n :: u64 where
  reachable_init: "reachable n (lazy_pool_ctor n)"
| reachable_step: "reachable n p \<Longrightarrow> pool_step a p = Some p' \<Longrightarrow> reachable n p'"

text \<open>
  How each control point is counted. A worker is on the thief lane from its
  \<^verbatim>\<open>fetch_add(k_thieve)\<close> until it is promoted or takes itself off with
  \<^verbatim>\<open>fetch_sub(k_thieve)\<close>, and a worker that exits on the stop flag stays on it; it is
  on the active lane between promotion and demotion; otherwise it is off the counter
  (not yet entered, about to wait, parked, or about to re-enter).
\<close>

fun on_thief_lane :: "pc \<Rightarrow> bool" where
  "on_thief_lane WakeUp = False"
| "on_thief_lane (CallWait k) = False"
| "on_thief_lane (Parked k) = False"
| "on_thief_lane (NotifyLast h) = False"
| "on_thief_lane (Resuming h) = False"
| "on_thief_lane Demote = False"
| "on_thief_lane l = True"

fun on_active_lane :: "pc \<Rightarrow> bool" where
  "on_active_lane (NotifyLast h) = True"
| "on_active_lane (Resuming h) = True"
| "on_active_lane Demote = True"
| "on_active_lane l = False"

fun off_counter :: "pc \<Rightarrow> bool" where
  "off_counter WakeUp = True"
| "off_counter (CallWait k) = True"
| "off_counter (Parked k) = True"
| "off_counter l = False"

fun is_parked :: "pc \<Rightarrow> bool" where
  "is_parked (Parked k) = True"
| "is_parked l = False"

definition thief_count :: "lazy_pool \<Rightarrow> nat" where
  "thief_count p = length (filter on_thief_lane (m_workers p))"

definition active_count :: "lazy_pool \<Rightarrow> nat" where
  "active_count p = length (filter on_active_lane (m_workers p))"

definition off_count :: "lazy_pool \<Rightarrow> nat" where
  "off_count p = length (filter off_counter (m_workers p))"

definition parked_count :: "lazy_pool \<Rightarrow> nat" where
  "parked_count p = length (filter is_parked (m_workers p))"

fun in_transit :: "pc \<Rightarrow> bool" where
  "in_transit WakeUp = True"
| "in_transit (CallWait k) = True"
| "in_transit l = False"

definition transit_count :: "lazy_pool \<Rightarrow> nat" where
  "transit_count p = length (filter in_transit (m_workers p))"

text \<open>
  The invariant of the source comment, on a value \<open>w\<close> of the counter of a pool of \<open>N\<close>
  workers with \<open>S\<close> sleepers: if \<open>A > 0\<close> then \<open>T \<ge> 1\<close> or \<open>S = 0\<close>. \<open>I1\<close> takes the
  sleepers to be the workers the counter does not count, \<open>S = N - T - A\<close>.
\<close>

definition I1_with :: "nat \<Rightarrow> u64 \<Rightarrow> bool" where
  "I1_with S w = (0 < A w \<longrightarrow> 1 \<le> T w \<or> S = 0)"

definition I1 :: "nat \<Rightarrow> u64 \<Rightarrow> bool" where
  "I1 N w = I1_with (N - T w - A w) w"

section \<open>The counter and the workers it counts\<close>

subsection \<open>Counting control points\<close>

lemma filter_count_pos:
  assumes "i < length ws" and "P (ws ! i)"
  shows "1 \<le> length (filter P ws)"
proof -
  have "ws ! i \<in> set (filter P ws)"
    using assms by simp
  then have "filter P ws \<noteq> []"
    by force
  then show ?thesis
    by (cases "filter P ws") simp_all
qed

lemma filter_update_count:
  "i < length ws \<Longrightarrow>
   length (filter P (ws[i := l])) =
     length (filter P ws) - (if P (ws ! i) then 1 else 0) + (if P l then 1 else 0)"
proof (induction ws arbitrary: i)
  case Nil
  then show ?case by simp
next
  case (Cons x xs)
  show ?case
  proof (cases i)
    case 0
    then show ?thesis by simp
  next
    case (Suc j)
    have "P (xs ! j) \<Longrightarrow> 1 \<le> length (filter P xs)"
      using Cons.prems Suc filter_count_pos [of j xs P] by simp
    with Cons Suc show ?thesis by auto
  qed
qed

lemma lanes_partition:
  "length (filter on_thief_lane ws) + length (filter on_active_lane ws)
     + length (filter off_counter ws) = length ws"
proof (induction ws)
  case Nil
  then show ?case by simp
next
  case (Cons l ws)
  then show ?case by (cases l) simp_all
qed

lemma off_split:
  "length (filter off_counter ws) = length (filter is_parked ws) + length (filter in_transit ws)"
proof (induction ws)
  case Nil
  then show ?case by simp
next
  case (Cons l ws)
  then show ?case by (cases l) simp_all
qed

subsection \<open>The lanes count the workers\<close>

text \<open>
  \<open>accounted n p\<close>: the pool has \<open>n\<close> workers, the thief lane holds the number of
  workers on the thief lane and the active lane the number of workers on the active lane.
  It holds in every reachable state of a pool of fewer than \<open>2^32\<close> workers.
\<close>

definition accounted :: "u64 \<Rightarrow> lazy_pool \<Rightarrow> bool" where
  "accounted n p = (length (m_workers p) = unat n \<and> T (dual_count p) = thief_count p
     \<and> A (dual_count p) = active_count p)"

lemma T_zero: "T 0 = 0" "A 0 = 0"
  by (simp_all add: T_mod A_div)

lemma accounted_init: "accounted n (lazy_pool_ctor n)"
  by (simp add: accounted_def lazy_pool_ctor_def T_zero thief_count_def active_count_def)

lemmas pool_ops = goto_def emit_def fetch_add_def fetch_sub_def resume_def

lemma accounted_work:
  assumes acc: "accounted n p" and n: "unat n < 4294967296"
    and st: "work_step i ora p = Some p'"
  shows "accounted n p'"
proof -
  let ?ws = "m_workers p"
  let ?w = "dual_count p"
  have i: "i < length ?ws" and at: "work_at i ora (?ws ! i) p = Some p'"
    using st by (auto simp: work_step_def split: if_splits)
  have len: "length ?ws = unat n" and Tc: "T ?w = thief_count p" and Ac: "A ?w = active_count p"
    using acc by (simp_all add: accounted_def)
  have part: "thief_count p + active_count p + off_count p = unat n"
    using lanes_partition [of ?ws] len
    by (simp add: thief_count_def active_count_def off_count_def)
  have thief_pos: "on_thief_lane (?ws ! i) \<Longrightarrow> 1 \<le> thief_count p"
    unfolding thief_count_def using i by (rule filter_count_pos)
  have active_pos: "on_active_lane (?ws ! i) \<Longrightarrow> 1 \<le> active_count p"
    unfolding active_count_def using i by (rule filter_count_pos)
  have off_pos: "off_counter (?ws ! i) \<Longrightarrow> 1 \<le> off_count p"
    unfolding off_count_def using i by (rule filter_count_pos)
  have tc: "thief_count q = thief_count p - (if on_thief_lane (?ws ! i) then 1 else 0)
      + (if on_thief_lane l then 1 else 0)" if "m_workers q = ?ws[i := l]" for q l
    using that i by (simp add: thief_count_def filter_update_count)
  have ac: "active_count q = active_count p - (if on_active_lane (?ws ! i) then 1 else 0)
      + (if on_active_lane l then 1 else 0)" if "m_workers q = ?ws[i := l]" for q l
    using that i by (simp add: active_count_def filter_update_count)
  have keep: "accounted n q" if "m_workers q = ?ws[i := l]" "dual_count q = ?w"
    "on_thief_lane l = on_thief_lane (?ws ! i)" "on_active_lane l = on_active_lane (?ws ! i)"
    for q l
    using that tc [OF that(1)] ac [OF that(1)] len Tc Ac thief_pos active_pos
    by (auto simp: accounted_def)
  show ?thesis
  proof (cases "?ws ! i")
    case WakeUp
    then have "T ?w < 4294967295"
      using off_pos part n Tc by simp
    from lane_entry [OF this] show ?thesis
      using at WakeUp len Tc Ac tc [of p' ContinueAsThief] ac [of p' ContinueAsThief]
      by (auto simp: accounted_def pool_ops)
  next
    case (ParkAttempt k)
    then have "1 \<le> T ?w"
      using thief_pos Tc by simp
    from lane_park [OF this] show ?thesis
      using at ParkAttempt len Tc Ac tc [of p' WakeUp] ac [of p' WakeUp]
        tc [of p' "CallWait k"] ac [of p' "CallWait k"]
      by (auto simp: accounted_def pool_ops Let_def split: if_splits)
  next
    case (Promote h)
    then have "1 \<le> T ?w" "A ?w < 4294967295"
      using thief_pos [of] Tc Ac part n by simp_all
    from lane_promote [OF this] show ?thesis
      using at Promote len Tc Ac tc [of p' "NotifyLast h"] ac [of p' "NotifyLast h"]
        tc [of p' "Resuming h"] ac [of p' "Resuming h"]
      by (auto simp: accounted_def pool_ops Let_def split: if_splits)
  next
    case Demote
    then have "1 \<le> A ?w" "T ?w < 4294967295"
      using active_pos Tc Ac part n by simp_all
    from lane_demote [OF this] show ?thesis
      using at Demote len Tc Ac tc [of p' ContinueAsThief] ac [of p' ContinueAsThief]
      by (auto simp: accounted_def pool_ops)
  next
    case Exited
    then show ?thesis using at by simp
  qed (use at in \<open>auto simp: pool_ops split: option.splits if_splits intro!: keep\<close>)
qed

lemma accounted_step:
  assumes "accounted n p" and "unat n < 4294967296" and "pool_step a p = Some p'"
  shows "accounted n p'"
proof (cases a)
  case (Work i ora)
  then show ?thesis
    using assms accounted_work by simp
next
  case (Schedule r node)
  then show ?thesis
    using assms
    by (auto simp: accounted_def schedule_def submit_def emit_def thief_count_def
        active_count_def split: if_splits)
next
  case CleanUp
  then show ?thesis
    using assms
    by (auto simp: accounted_def clean_up_def emit_def thief_count_def active_count_def)
qed

lemma reachable_accounted:
  assumes "reachable n p" and "unat n < 4294967296"
  shows "accounted n p"
  using assms
proof (induction rule: reachable.induct)
  case reachable_init
  show ?case by (rule accounted_init)
next
  case (reachable_step p a p')
  then show ?case
    using accounted_step by blast
qed

lemma exec_reachable:
  "reachable n p \<Longrightarrow> exec as p = Some p' \<Longrightarrow> reachable n p'"
proof (induction as arbitrary: p)
  case Nil
  then show ?case by simp
next
  case (Cons a as)
  then show ?case
    by (auto split: option.splits intro: reachable_step)
qed

subsection \<open>The facade's members never change\<close>

lemma work_at_facade:
  assumes "work_at i ora l p = Some p'"
  shows "m_dist p' = m_dist p \<and> m_contexts p' = m_contexts p"
  using assms
  by (cases l) (auto simp: pool_ops Let_def split: option.splits if_splits)

lemma pool_step_facade:
  assumes "pool_step a p = Some p'"
  shows "m_dist p' = m_dist p \<and> m_contexts p' = m_contexts p"
proof (cases a)
  case (Work i ora)
  then show ?thesis
    using assms work_at_facade by (auto simp: work_step_def split: if_splits)
next
  case (Schedule r node)
  then show ?thesis
    using assms by (auto simp: schedule_def submit_def emit_def split: if_splits)
next
  case CleanUp
  then show ?thesis
    using assms by (auto simp: clean_up_def emit_def)
qed

lemma reachable_facade:
  assumes "reachable n p"
  shows "m_dist p = (0, n - 1) \<and> m_contexts p = [0..<unat n]"
  using assms
proof (induction rule: reachable.induct)
  case reachable_init
  show ?case by (simp add: lazy_pool_ctor_def)
next
  case (reachable_step p a p')
  then show ?case
    using pool_step_facade by metis
qed

lemma unat_max_u64: "unat (- 1 :: u64) = 18446744073709551615"
proof -
  have "(- 1 :: u64) = 18446744073709551615"
    by simp
  then have "unat (- 1 :: u64) = unat (18446744073709551615 :: u64)"
    by (rule arg_cong)
  then show ?thesis
    by simp
qed

lemma drawn_index_less:
  assumes "n \<noteq> 0" and "r \<le> n - 1"
  shows "unat r < unat (n::u64)"
proof -
  have "unat (n - 1) = unat n - 1"
    using assms(1) by (simp add: unat_minus_one)
  moreover have "unat r \<le> unat (n - 1)"
    using assms(2) by (simp add: word_le_nat_alt)
  moreover have "0 < unat n"
    using assms(1) by (simp add: unat_gt_0)
  ultimately show ?thesis
    by simp
qed

subsection \<open>Runs of small pools\<close>

text \<open>
  \<open>nobody\<close>: no submission, nothing to steal, key 0. In \<open>abort_run\<close> worker 0 of a
  pool of two takes a submission and is promoted while worker 1, finding nothing, goes
  through the park attempt as the last thief and is sent back to \<^verbatim>\<open>wake_up\<close>:
  \<open>before_park\<close> and \<open>abort_state\<close> are the states before and after its
  \<^verbatim>\<open>fetch_sub\<close>, and \<open>before_demotion\<close> is the state once worker 0 has then resumed
  its handle. In \<open>last_thief_run\<close> worker 1 parks first (\<open>two_thieves\<close> is the
  state before its \<^verbatim>\<open>fetch_sub\<close>) and worker 0, now the last thief, takes a submission:
  \<open>before_promotion\<close> and \<open>after_promotion\<close> are the states around its promotion.
  \<open>stopping\<close> is a pool of one whose owner has begun \<^verbatim>\<open>clean_up\<close> while the worker was
  about to test the stop flag.
\<close>

definition nobody :: answers where "nobody = \<lparr>submitted = None, stolen = None, wait_key = 0\<rparr>"

definition abort_run :: "action list" where
  "abort_run = [Work 0 nobody, Work 1 nobody, Schedule 0 [5],
     Work 0 (nobody\<lparr>submitted := Some [5]\<rparr>), Work 0 nobody, Work 1 nobody, Work 1 nobody, Work 1 nobody, Work 1 nobody, Work 1 nobody,
     Work 1 nobody]"

definition abort_state :: lazy_pool where
  "abort_state = \<lparr>dual_count = 4294967296, stop = False, m_dist = (0, 1),
     m_contexts = [0, 1], m_workers = [Resuming (Intruded [5]), WakeUp],
     trace =
       [(Worker 0, FetchAdd 1), (Worker 1, FetchAdd 1),
        (External, Enqueue 0 [5]), (External, NotifyAll),
        (Worker 0, FetchAdd 4294967295), (Worker 1, PrepareWaitCall),
        (Worker 1, TestStop), (Worker 1, FetchSub 1)]\<rparr>"

definition before_park :: lazy_pool where
  "before_park = \<lparr>dual_count = 4294967297, stop = False, m_dist = (0, 1),
     m_contexts = [0, 1], m_workers = [Resuming (Intruded [5]), ParkAttempt 0],
     trace =
       [(Worker 0, FetchAdd 1), (Worker 1, FetchAdd 1),
        (External, Enqueue 0 [5]), (External, NotifyAll),
        (Worker 0, FetchAdd 4294967295), (Worker 1, PrepareWaitCall),
        (Worker 1, TestStop)]\<rparr>"


definition last_thief_run :: "action list" where
  "last_thief_run = [Work 0 nobody, Work 1 nobody, Schedule 0 [5], Work 1 nobody, Work 1 nobody, Work 1 nobody,
     Work 1 nobody, Work 1 nobody, Work 1 nobody, Work 1 nobody,
     Work 0 (nobody\<lparr>submitted := Some [5]\<rparr>)]"

definition two_thieves :: lazy_pool where
  "two_thieves = \<lparr>dual_count = 2, stop = False, m_dist = (0, 1),
     m_contexts = [0, 1], m_workers = [ContinueAsThief, ParkAttempt 0],
     trace =
       [(Worker 0, FetchAdd 1), (Worker 1, FetchAdd 1),
        (External, Enqueue 0 [5]), (External, NotifyAll), (Worker 1, PrepareWaitCall),
        (Worker 1, TestStop)]\<rparr>"

definition before_promotion :: lazy_pool where
  "before_promotion = \<lparr>dual_count = 1, stop = False, m_dist = (0, 1), m_contexts = [0, 1],
     m_workers = [Promote (Intruded [5]), Parked 0],
     trace =
       [(Worker 0, FetchAdd 1), (Worker 1, FetchAdd 1),
        (External, Enqueue 0 [5]), (External, NotifyAll),
        (Worker 1, PrepareWaitCall), (Worker 1, TestStop),
        (Worker 1, FetchSub 1), (Worker 1, Wait 0)]\<rparr>"

definition after_promotion :: lazy_pool where
  "after_promotion = \<lparr>dual_count = 4294967296, stop = False, m_dist = (0, 1),
     m_contexts = [0, 1], m_workers = [NotifyLast (Intruded [5]), Parked 0],
     trace =
       [(Worker 0, FetchAdd 1), (Worker 1, FetchAdd 1),
        (External, Enqueue 0 [5]), (External, NotifyAll),
        (Worker 1, PrepareWaitCall), (Worker 1, TestStop),
        (Worker 1, FetchSub 1), (Worker 1, Wait 0),
        (Worker 0, FetchAdd 4294967295)]\<rparr>"

definition stopping :: lazy_pool where
  "stopping = \<lparr>dual_count = 1, stop = True, m_dist = (0, 0), m_contexts = [0],
     m_workers = [CheckStop 0],
     trace = [(Worker 0, FetchAdd 1), (Worker 0, PrepareWaitCall), (External, SetStop),
       (External, NotifyAll)]\<rparr>"

lemmas run_simps = work_step_def pool_ops schedule_def submit_def clean_up_def
  lazy_pool_ctor_def nobody_def k_active_val
  k_thieve_def k_thieve_mask_def k_active_mask_def Let_def

lemma ctor_one: "lazy_pool_ctor 1 = \<lparr>dual_count = 0, stop = False, m_dist = (0, 0),
     m_contexts = [0], m_workers = [WakeUp], trace = []\<rparr>"
  by (simp add: lazy_pool_ctor_def)

lemma ctor_two: "lazy_pool_ctor 2 = \<lparr>dual_count = 0, stop = False, m_dist = (0, 1),
     m_contexts = [0, 1], m_workers = [WakeUp, WakeUp], trace = []\<rparr>"
proof -
  have u: "unat (2::u64) = Suc (Suc 0)"
    by simp
  have l: "[0..<Suc (Suc 0)] = [0, 1]"
    by (simp add: upt_rec)
  show ?thesis
    unfolding lazy_pool_ctor_def u l by simp
qed

lemma abort_run_exec: "exec abort_run (lazy_pool_ctor 2) = Some abort_state"
  unfolding ctor_two
  by (simp add: abort_run_def abort_state_def run_simps)

lemma before_park_exec: "exec (butlast abort_run) (lazy_pool_ctor 2) = Some before_park"
  unfolding ctor_two
  by (simp add: abort_run_def before_park_def run_simps)


lemma last_thief_run_exec: "exec last_thief_run (lazy_pool_ctor 2) = Some before_promotion"
  unfolding ctor_two
  by (simp add: last_thief_run_def before_promotion_def run_simps)

lemma two_thieves_exec: "exec (take 8 last_thief_run) (lazy_pool_ctor 2) = Some two_thieves"
  unfolding ctor_two
  by (simp add: last_thief_run_def two_thieves_def run_simps)

lemma promotion_step: "pool_step (Work 0 nobody) before_promotion = Some after_promotion"
  by (simp add: after_promotion_def before_promotion_def run_simps)

lemma stopping_exec:
  "exec [Work 0 nobody, Work 0 nobody, Work 0 nobody, Work 0 nobody, CleanUp, Work 0 nobody]
     (lazy_pool_ctor 1) = Some stopping"
  unfolding ctor_one
  by (simp add: stopping_def run_simps)

lemma T_A_vals: "T 1 = 1" "A 1 = 0" "T 4294967296 = 0" "A 4294967296 = 1"
  by (simp_all add: T_mod A_div)

lemma T_A_vals2: "T 4294967297 = 1" "A 4294967297 = 1" "T 2 = 2" "A 2 = 0"
  by (simp_all add: T_mod A_div)

lemma run_worker_3: "run_worker i ora 3 p = run_worker i ora (Suc (Suc (Suc 0))) p"
  by (simp add: numeral_3_eq_3)

lemma run_worker_4: "run_worker i ora 4 p = run_worker i ora (Suc (Suc (Suc (Suc 0)))) p"
  by (simp add: eval_nat_numeral)

section \<open>The liveness invariant I1\<close>

text \<open>
  Claim C1 as stated: in every reachable state, if \<open>A > 0\<close> then \<open>T \<ge> 1\<close> or
  \<open>S = 0\<close>, and no single transition leads from a state that satisfies this to one that
  does not. It fails: in a pool of two, with worker 1 parked inside \<^verbatim>\<open>wait\<close> and
  worker 0 the only thief, the promotion of worker 0 leads from a state satisfying I1 to
  the counter \<open>T = 0, A = 1\<close> while one worker sleeps. I1 is false there both with
  \<open>S = N - T - A\<close> and with \<open>S\<close> the number of workers parked in the notifier.
\<close>

theorem I1_counterexample:
  "reachable 2 before_promotion \<and> I1 2 (dual_count before_promotion) \<and>
   pool_step (Work 0 nobody) before_promotion = Some after_promotion \<and>
   \<not> I1 2 (dual_count after_promotion) \<and>
   \<not> I1_with (parked_count after_promotion) (dual_count after_promotion)"
proof -
  have "reachable 2 before_promotion"
    using exec_reachable [OF reachable_init last_thief_run_exec] .
  moreover have "I1 2 (dual_count before_promotion)"
    by (simp add: before_promotion_def I1_def I1_with_def T_A_vals)
  moreover have "\<not> I1 2 (dual_count after_promotion)"
    by (simp add: after_promotion_def I1_def I1_with_def T_A_vals)
  moreover have "\<not> I1_with (parked_count after_promotion) (dual_count after_promotion)"
    by (simp add: after_promotion_def parked_count_def I1_with_def T_A_vals)
  ultimately show ?thesis
    using promotion_step by simp
qed

text \<open>
  Claim C1, amended. In a pool of fewer than \<open>2^32\<close> workers, in every reachable state:
  a thief entry (\<^verbatim>\<open>fetch_add(k_thieve)\<close> at \<^verbatim>\<open>wake_up\<close>) and a demotion always lead to
  a counter satisfying I1; and a transition from a counter satisfying I1 leads to a
  counter satisfying I1 unless it is a promotion whose prior thief count was 1, after
  which that worker is about to call \<^verbatim>\<open>notify_one\<close>, or a park attempt's
  \<^verbatim>\<open>fetch_sub\<close> whose prior thief count was 1 with a nonzero active count, after which
  that worker is back at \<^verbatim>\<open>wake_up\<close>, whose \<^verbatim>\<open>fetch_add\<close> restores I1.
\<close>

theorem I1_transitions:
  assumes r: "reachable n p" and n: "unat n < 2 ^ 32" and st: "pool_step a p = Some p'"
  shows "((\<exists>i ora. a = Work i ora \<and> (m_workers p ! i = WakeUp \<or> m_workers p ! i = Demote))
      \<longrightarrow> I1 (unat n) (dual_count p')) \<and>
    (I1 (unat n) (dual_count p) \<longrightarrow>
       I1 (unat n) (dual_count p') \<or>
       (\<exists>i ora h. a = Work i ora \<and> m_workers p ! i = Promote h \<and> T (dual_count p) = 1 \<and>
          m_workers p' ! i = NotifyLast h) \<or>
       (\<exists>i ora k. a = Work i ora \<and> m_workers p ! i = ParkAttempt k \<and> T (dual_count p) = 1 \<and>
          A (dual_count p) \<noteq> 0 \<and> m_workers p' ! i = WakeUp))"
proof (cases a)
  case (Schedule r node)
  then show ?thesis
    using st by (auto simp: schedule_def submit_def emit_def split: if_splits)
next
  case CleanUp
  then show ?thesis
    using st by (auto simp: clean_up_def emit_def)
next
  case (Work i ora)
  let ?ws = "m_workers p"
  let ?w = "dual_count p"
  have n': "unat n < 4294967296"
    using n by simp
  have acc: "accounted n p"
    using r n' by (rule reachable_accounted)
  have acc': "accounted n p'"
    using acc n' st by (rule accounted_step)
  have i: "i < length ?ws" and at: "work_at i ora (?ws ! i) p = Some p'"
    using st Work by (auto simp: work_step_def split: if_splits)
  have len: "length ?ws = unat n" and Tc: "T ?w = thief_count p" and Ac: "A ?w = active_count p"
    using acc by (simp_all add: accounted_def)
  have Tc': "T (dual_count p') = thief_count p'" and Ac': "A (dual_count p') = active_count p'"
    using acc' by (simp_all add: accounted_def)
  have thief_pos: "on_thief_lane (?ws ! i) \<Longrightarrow> 1 \<le> thief_count p"
    unfolding thief_count_def using i by (rule filter_count_pos)
  have tc: "thief_count q = thief_count p - (if on_thief_lane (?ws ! i) then 1 else 0)
      + (if on_thief_lane l then 1 else 0)" if "m_workers q = ?ws[i := l]" for q l
    using that i by (simp add: thief_count_def filter_update_count)
  show ?thesis
  proof (cases "?ws ! i")
    case WakeUp
    then have "1 \<le> T (dual_count p')"
      using at tc [of p' ContinueAsThief] Tc' by (auto simp: pool_ops)
    then show ?thesis
      using WakeUp Work by (auto simp: I1_def I1_with_def)
  next
    case Demote
    then have "1 \<le> T (dual_count p')"
      using at tc [of p' ContinueAsThief] Tc' by (auto simp: pool_ops)
    then show ?thesis
      using Demote Work by (auto simp: I1_def I1_with_def)
  next
    case (ParkAttempt k)
    have pos: "1 \<le> T ?w"
      using ParkAttempt thief_pos Tc by simp
    show ?thesis
    proof (cases "T ?w = 1 \<and> A ?w \<noteq> 0")
      case True
      then have "m_workers p' ! i = WakeUp"
        using at ParkAttempt i thief_lane_one_iff [of ?w] active_bits_iff [of ?w]
        by (auto simp: pool_ops Let_def thief_lane_def active_bits_def split: if_splits)
      then show ?thesis
        using True ParkAttempt Work by auto
    next
      case False
      have l: "T (dual_count p') = T ?w - 1 \<and> A (dual_count p') = A ?w"
        using lane_park [OF pos] at ParkAttempt
        by (auto simp: pool_ops Let_def split: if_splits)
      then have "I1 (unat n) (dual_count p')"
        using False pos by (auto simp: I1_def I1_with_def)
      then show ?thesis
        using ParkAttempt Work by auto
    qed
  next
    case (Promote h)
    have pos: "1 \<le> T ?w"
      using Promote thief_pos Tc by simp
    show ?thesis
    proof (cases "T ?w = 1")
      case True
      then have "m_workers p' ! i = NotifyLast h"
        using at Promote i thief_lane_one_iff [of ?w]
        by (auto simp: pool_ops Let_def thief_lane_def split: if_splits)
      then show ?thesis
        using True Promote Work by auto
    next
      case False
      have "m_workers p' = ?ws[i := Resuming h]"
        using at Promote False thief_lane_one_iff [of ?w]
        by (auto simp: pool_ops Let_def thief_lane_def split: if_splits)
      then have "T (dual_count p') = T ?w - 1"
        using tc [of p' "Resuming h"] Promote Tc Tc' by simp
      then have "I1 (unat n) (dual_count p')"
        using False pos by (auto simp: I1_def I1_with_def)
      then show ?thesis
        using Promote Work by auto
    qed
  next
    case Exited
    then show ?thesis using at by simp
  qed (use at Work in \<open>auto simp: pool_ops split: option.splits if_splits\<close>)
qed

theorem I1_transitions_witness:
  "reachable 2 before_promotion \<and> unat (2::u64) < 2 ^ 32 \<and>
   pool_step (Work 0 nobody) before_promotion = Some after_promotion \<and>
   I1 (unat (2::u64)) (dual_count before_promotion) \<and>
   \<not> I1 (unat (2::u64)) (dual_count after_promotion) \<and>
   T (dual_count before_promotion) = 1 \<and>
   m_workers after_promotion ! 0 = NotifyLast (Intruded [5]) \<and>
   reachable 2 abort_state \<and> m_workers abort_state ! 1 = WakeUp \<and>
   (\<exists>p'. pool_step (Work 1 nobody) abort_state = Some p' \<and> I1 (unat (2::u64)) (dual_count p'))"
proof -
  have r: "reachable 2 before_promotion"
    using exec_reachable [OF reachable_init last_thief_run_exec] .
  have r': "reachable 2 abort_state"
    using exec_reachable [OF reachable_init abort_run_exec] .
  have b: "unat (2::u64) < 2 ^ 32"
    by simp
  have i: "I1 (unat (2::u64)) (dual_count before_promotion)"
    by (simp add: before_promotion_def I1_def I1_with_def T_A_vals)
  have ni: "\<not> I1 (unat (2::u64)) (dual_count after_promotion)"
    by (simp add: after_promotion_def I1_def I1_with_def T_A_vals)
  have t: "T (dual_count before_promotion) = 1"
    by (simp add: before_promotion_def T_A_vals)
  have l: "m_workers after_promotion ! 0 = NotifyLast (Intruded [5])"
    by (simp add: after_promotion_def)
  have w: "m_workers abort_state ! 1 = WakeUp"
    by (simp add: abort_state_def)
  obtain p' where s: "pool_step (Work 1 nobody) abort_state = Some p'"
    by (simp add: abort_state_def work_step_def)
  have "I1 (unat (2::u64)) (dual_count p')"
    using I1_transitions [OF r' b s] w by blast
  then have e: "\<exists>p'. pool_step (Work 1 nobody) abort_state = Some p' \<and>
      I1 (unat (2::u64)) (dual_count p')"
    using s by blast
  from r b promotion_step i ni t l r' w e show ?thesis
    by (intro conjI)
qed

section \<open>The conservation invariant I2\<close>

text \<open>
  Claim C7 as stated: \<open>T + A + S = N\<close> in every reachable state, with \<open>S\<close> the number
  of workers parked in the notifier. It fails: in \<open>abort_state\<close>, reached by
  \<open>abort_run\<close> in a pool of two, worker 1 has taken itself off the thief lane and is on
  its way back to \<^verbatim>\<open>wake_up\<close>; nobody is parked and \<open>T + A = 1\<close>.
\<close>

theorem I2_counterexample:
  "exec abort_run (lazy_pool_ctor 2) = Some abort_state \<and> reachable 2 abort_state \<and>
   T (dual_count abort_state) + A (dual_count abort_state) + parked_count abort_state
     \<noteq> unat (2::u64)"
proof -
  have "reachable 2 abort_state"
    using exec_reachable [OF reachable_init abort_run_exec] .
  moreover have "T (dual_count abort_state) + A (dual_count abort_state)
      + parked_count abort_state = 1"
    by (simp add: abort_state_def parked_count_def T_A_vals)
  ultimately show ?thesis
    using abort_run_exec by simp
qed

text \<open>
  Claim C7, amended. In every reachable state of a pool of \<open>N < 2^32\<close> workers,
  \<open>T + A + S = N\<close> where \<open>S\<close> is the number of workers that are off the counter: those
  parked inside \<^verbatim>\<open>wait\<close> together with those in transit (at \<^verbatim>\<open>wake_up\<close> before
  their \<^verbatim>\<open>fetch_add\<close>, or between the park attempt's \<^verbatim>\<open>fetch_sub\<close> and the call of
  \<^verbatim>\<open>wait\<close>). \<open>T\<close> is the number of workers on the thief lane, which a worker that
  exited on the stop flag never leaves, and \<open>A\<close> the number on the active lane; so the
  equation also holds after the stop flag is set and workers exit.
\<close>

theorem I2_off_counter:
  assumes "reachable n p" and "unat n < 2 ^ 32"
  shows "T (dual_count p) + A (dual_count p) + off_count p = unat n \<and>
    off_count p = parked_count p + transit_count p \<and>
    T (dual_count p) = thief_count p \<and> A (dual_count p) = active_count p \<and>
    length (m_workers p) = unat n"
proof -
  have acc: "accounted n p"
    using assms reachable_accounted by simp
  have "thief_count p + active_count p + off_count p = length (m_workers p)"
    using lanes_partition [of "m_workers p"]
    by (simp add: thief_count_def active_count_def off_count_def)
  moreover have "off_count p = parked_count p + transit_count p"
    using off_split [of "m_workers p"]
    by (simp add: off_count_def parked_count_def transit_count_def)
  ultimately show ?thesis
    using acc by (simp add: accounted_def)
qed

theorem I2_off_counter_witness:
  "reachable 2 abort_state \<and> unat (2::u64) < 2 ^ 32 \<and>
   T (dual_count abort_state) + A (dual_count abort_state) + off_count abort_state = 2 \<and>
   off_count abort_state = 1 \<and> parked_count abort_state = 0"
proof -
  have r: "reachable 2 abort_state"
    using exec_reachable [OF reachable_init abort_run_exec] .
  have b: "unat (2::u64) < 2 ^ 32"
    by simp
  have "off_count abort_state = 1" "parked_count abort_state = 0"
    by (simp_all add: abort_state_def off_count_def parked_count_def)
  then show ?thesis
    using I2_off_counter [OF r b] r by simp
qed

section \<open>Packed-lane arithmetic of the round trip\<close>


lemma fetch_add_dual:
  "fst (fetch_add a d p) = dual_count p \<and> dual_count (snd (fetch_add a d p)) = dual_count p + d"
  by (simp add: fetch_add_def emit_def)

lemma fetch_sub_dual:
  "fst (fetch_sub a d p) = dual_count p \<and> dual_count (snd (fetch_sub a d p)) = dual_count p - d"
  by (simp add: fetch_sub_def emit_def)







section \<open>The round trip and the park attempt\<close>

text \<open>
  Claim C4. A worker at the head of \<^verbatim>\<open>thief_round_trip\<close> makes one
  \<^verbatim>\<open>fetch_add(k_active - k_thieve)\<close> on the counter; if the thief lane of the value it
  read is 1 its next call is \<^verbatim>\<open>notify_one\<close>, otherwise it goes on to resume the handle.
  Run without interruption, the round trip makes exactly the calls: the
  \<^verbatim>\<open>fetch_add\<close>, \<^verbatim>\<open>notify_one\<close> if and only if the thief count read was 1, the
  resumptions in chain order, the \<^verbatim>\<open>fetch_sub\<close>.
\<close>

theorem last_thief_wake:
  assumes i: "i < length (m_workers p)" and at: "m_workers p ! i = Promote h"
  shows "(\<exists>p1. work_step i ora p = Some p1 \<and>
      dual_count p1 = dual_count p + (k_active - k_thieve) \<and>
      trace p1 = trace p @ [(Worker i, FetchAdd (k_active - k_thieve))] \<and>
      m_workers p1 = (m_workers p)[i := if T (dual_count p) = 1 then NotifyLast h else Resuming h]) \<and>
    (\<forall>q. i < length (m_workers q) \<and> m_workers q ! i = NotifyLast h \<longrightarrow>
      (\<exists>q1. work_step i ora q = Some q1 \<and> dual_count q1 = dual_count q \<and>
         trace q1 = trace q @ [(Worker i, NotifyOne)] \<and>
         m_workers q1 = (m_workers q)[i := Resuming h])) \<and>
    (\<exists>p'. run_worker i ora (if T (dual_count p) = 1 then 4 else 3) p = Some p' \<and>
      trace p' = trace p @ [(Worker i, FetchAdd (k_active - k_thieve))]
        @ (if T (dual_count p) = 1 then [(Worker i, NotifyOne)] else [])
        @ map (\<lambda>t. (Worker i, Resume t)) (chain h)
        @ [(Worker i, FetchSub (k_active - k_thieve))] \<and>
      dual_count p' = dual_count p \<and>
      m_workers p' = (m_workers p)[i := ContinueAsThief])"
proof (intro conjI allI impI)
  show "\<exists>p1. work_step i ora p = Some p1 \<and>
      dual_count p1 = dual_count p + (k_active - k_thieve) \<and>
      trace p1 = trace p @ [(Worker i, FetchAdd (k_active - k_thieve))] \<and>
      m_workers p1 = (m_workers p)[i := if T (dual_count p) = 1 then NotifyLast h else Resuming h]"
    using i at thief_lane_one_iff [of "dual_count p"]
    by (simp add: work_step_def pool_ops Let_def thief_lane_def)
next
  fix q :: lazy_pool
  assume "i < length (m_workers q) \<and> m_workers q ! i = NotifyLast h"
  then show "\<exists>q1. work_step i ora q = Some q1 \<and> dual_count q1 = dual_count q \<and>
         trace q1 = trace q @ [(Worker i, NotifyOne)] \<and>
         m_workers q1 = (m_workers q)[i := Resuming h]"
    by (simp add: work_step_def pool_ops)
next
  show "\<exists>p'. run_worker i ora (if T (dual_count p) = 1 then 4 else 3) p = Some p' \<and>
      trace p' = trace p @ [(Worker i, FetchAdd (k_active - k_thieve))]
        @ (if T (dual_count p) = 1 then [(Worker i, NotifyOne)] else [])
        @ map (\<lambda>t. (Worker i, Resume t)) (chain h)
        @ [(Worker i, FetchSub (k_active - k_thieve))] \<and>
      dual_count p' = dual_count p \<and>
      m_workers p' = (m_workers p)[i := ContinueAsThief]"
    using i at thief_lane_one_iff [of "dual_count p"]
    by (simp add: run_worker_3 run_worker_4 work_step_def pool_ops Let_def thief_lane_def)
qed

theorem last_thief_wake_witness:
  "0 < length (m_workers before_promotion) \<and>
   m_workers before_promotion ! 0 = Promote (Intruded [5]) \<and>
   T (dual_count before_promotion) = 1 \<and>
   (\<exists>p'. run_worker 0 nobody 4 before_promotion = Some p' \<and>
      trace p' = trace before_promotion @
        [(Worker 0, FetchAdd (k_active - k_thieve)), (Worker 0, NotifyOne),
         (Worker 0, Resume 5), (Worker 0, FetchSub (k_active - k_thieve))])"
proof -
  have i: "0 < length (m_workers before_promotion)"
    and a: "m_workers before_promotion ! 0 = Promote (Intruded [5])"
    and t: "T (dual_count before_promotion) = 1"
    by (simp_all add: before_promotion_def T_A_vals)
  show ?thesis
    using last_thief_wake [OF i a, of nobody] i a t by auto
qed

text \<open>
  Claim C5. The park attempt's \<^verbatim>\<open>fetch_sub(k_thieve)\<close>: if the value read has thief
  lane 1 and a nonzero active lane, the worker goes to \<^verbatim>\<open>wake_up\<close> and its next call
  is \<^verbatim>\<open>fetch_add(k_thieve)\<close>, which puts the counter back, with no call of
  \<^verbatim>\<open>wait\<close>; in every other case its next call is \<^verbatim>\<open>wait(key)\<close>.
\<close>

theorem sleep_abort_compensation:
  assumes i: "i < length (m_workers p)" and at: "m_workers p ! i = ParkAttempt key"
  shows "\<exists>p1. work_step i ora p = Some p1 \<and>
      dual_count p1 = dual_count p - k_thieve \<and>
      trace p1 = trace p @ [(Worker i, FetchSub k_thieve)] \<and>
      (T (dual_count p) = 1 \<and> A (dual_count p) \<noteq> 0 \<longrightarrow>
         m_workers p1 = (m_workers p)[i := WakeUp] \<and>
         (\<exists>p2. work_step i ora' p1 = Some p2 \<and>
            trace p2 = trace p1 @ [(Worker i, FetchAdd k_thieve)] \<and>
            dual_count p2 = dual_count p \<and>
            m_workers p2 = (m_workers p)[i := ContinueAsThief])) \<and>
      (\<not> (T (dual_count p) = 1 \<and> A (dual_count p) \<noteq> 0) \<longrightarrow>
         m_workers p1 = (m_workers p)[i := CallWait key] \<and>
         (\<exists>p2. work_step i ora' p1 = Some p2 \<and>
            trace p2 = trace p1 @ [(Worker i, Wait key)] \<and>
            dual_count p2 = dual_count p1 \<and>
            m_workers p2 = (m_workers p)[i := Parked key]))"
  using i at thief_lane_one_iff [of "dual_count p"] active_bits_iff [of "dual_count p"]
  by (simp add: work_step_def pool_ops Let_def thief_lane_def active_bits_def)

theorem sleep_abort_compensation_witness:
  "1 < length (m_workers before_park) \<and> m_workers before_park ! 1 = ParkAttempt 0 \<and>
   T (dual_count before_park) = 1 \<and> A (dual_count before_park) \<noteq> 0 \<and>
   (\<exists>p1 p2. work_step 1 nobody before_park = Some p1 \<and>
      m_workers p1 ! 1 = WakeUp \<and> work_step 1 nobody p1 = Some p2 \<and>
      trace p2 = trace before_park @
        [(Worker 1, FetchSub k_thieve), (Worker 1, FetchAdd k_thieve)] \<and>
      dual_count p2 = dual_count before_park) \<and>
   1 < length (m_workers two_thieves) \<and> m_workers two_thieves ! 1 = ParkAttempt 0 \<and>
   T (dual_count two_thieves) = 2 \<and>
   (\<exists>p1 p2. work_step 1 nobody two_thieves = Some p1 \<and>
      m_workers p1 ! 1 = CallWait 0 \<and> work_step 1 nobody p1 = Some p2 \<and>
      trace p2 = trace two_thieves @ [(Worker 1, FetchSub k_thieve), (Worker 1, Wait 0)])"
proof -
  have i: "1 < length (m_workers before_park)"
    and a: "m_workers before_park ! 1 = ParkAttempt 0"
    and t: "T (dual_count before_park) = 1" "A (dual_count before_park) \<noteq> 0"
    by (simp_all add: before_park_def T_A_vals2)
  have j: "1 < length (m_workers two_thieves)"
    and b: "m_workers two_thieves ! 1 = ParkAttempt 0"
    and u: "T (dual_count two_thieves) = 2"
    by (simp_all add: two_thieves_def T_A_vals2)
  obtain p1 where p1: "work_step 1 nobody before_park = Some p1"
      "trace p1 = trace before_park @ [(Worker 1, FetchSub k_thieve)]"
      "m_workers p1 = (m_workers before_park)[1 := WakeUp]"
      "\<exists>p2. work_step 1 nobody p1 = Some p2 \<and>
            trace p2 = trace p1 @ [(Worker 1, FetchAdd k_thieve)] \<and>
            dual_count p2 = dual_count before_park"
    using sleep_abort_compensation [OF i a, of nobody nobody] t by auto
  have c1: "\<exists>p1 p2. work_step 1 nobody before_park = Some p1 \<and>
      m_workers p1 ! 1 = WakeUp \<and> work_step 1 nobody p1 = Some p2 \<and>
      trace p2 = trace before_park @
        [(Worker 1, FetchSub k_thieve), (Worker 1, FetchAdd k_thieve)] \<and>
      dual_count p2 = dual_count before_park"
    using p1 i by auto
  obtain q1 where q1: "work_step 1 nobody two_thieves = Some q1"
      "trace q1 = trace two_thieves @ [(Worker 1, FetchSub k_thieve)]"
      "m_workers q1 = (m_workers two_thieves)[1 := CallWait 0]"
      "\<exists>p2. work_step 1 nobody q1 = Some p2 \<and> trace p2 = trace q1 @ [(Worker 1, Wait 0)]"
    using sleep_abort_compensation [OF j b, of nobody nobody] u by auto
  have c2: "\<exists>p1 p2. work_step 1 nobody two_thieves = Some p1 \<and>
      m_workers p1 ! 1 = CallWait 0 \<and> work_step 1 nobody p1 = Some p2 \<and>
      trace p2 = trace two_thieves @ [(Worker 1, FetchSub k_thieve), (Worker 1, Wait 0)]"
    using q1 j by auto
  from i a t c1 j b u c2 show ?thesis
    by (intro conjI)
qed

text \<open>
  Claim C6. A worker that tests the stop flag in its park attempt and finds it set calls
  \<^verbatim>\<open>cancel_wait\<close> and returns: the two calls leave the counter as it was, so the
  thief lane still counts the worker, and a worker that has returned makes no further
  call.
\<close>

theorem ghost_thief:
  assumes i: "i < length (m_workers p)" and at: "m_workers p ! i = CheckStop key"
    and s: "stop p"
  shows "\<exists>p1 p2. work_step i ora p = Some p1 \<and>
      m_workers p1 = (m_workers p)[i := CancelThenExit] \<and>
      dual_count p1 = dual_count p \<and>
      work_step i ora' p1 = Some p2 \<and>
      trace p2 = trace p @ [(Worker i, TestStop), (Worker i, CancelWait)] \<and>
      m_workers p2 = (m_workers p)[i := Exited] \<and>
      dual_count p2 = dual_count p \<and> T (dual_count p2) = T (dual_count p) \<and>
      work_step i ora'' p2 = None \<and>
      (\<forall>q. i < length (m_workers q) \<and> m_workers q ! i = CancelThenExit \<longrightarrow>
         (\<exists>q'. work_step i ora' q = Some q' \<and> dual_count q' = dual_count q \<and>
            trace q' = trace q @ [(Worker i, CancelWait)] \<and>
            m_workers q' = (m_workers q)[i := Exited])) \<and>
      (\<forall>q. i < length (m_workers q) \<and> m_workers q ! i = Exited \<longrightarrow>
         work_step i ora'' q = None)"
  using i at s by (simp add: work_step_def pool_ops)

theorem ghost_thief_witness:
  "0 < length (m_workers stopping) \<and> m_workers stopping ! 0 = CheckStop 0 \<and> stop stopping \<and>
   reachable 1 stopping \<and>
   (\<exists>p1 p2. work_step 0 nobody stopping = Some p1 \<and> work_step 0 nobody p1 = Some p2 \<and>
      m_workers p2 = [Exited] \<and> dual_count p2 = 1 \<and> work_step 0 nobody p2 = None)"
proof -
  have i: "0 < length (m_workers stopping)" and a: "m_workers stopping ! 0 = CheckStop 0"
    and s: "stop stopping"
    by (simp_all add: stopping_def)
  have r: "reachable 1 stopping"
    using exec_reachable [OF reachable_init stopping_exec] .
  have w: "m_workers stopping = [CheckStop 0]" and d: "dual_count stopping = 1"
    by (simp_all add: stopping_def)
  have "\<exists>p1 p2. work_step 0 nobody stopping = Some p1 \<and> work_step 0 nobody p1 = Some p2 \<and>
      m_workers p2 = [Exited] \<and> dual_count p2 = 1 \<and> work_step 0 nobody p2 = None"
    using ghost_thief [OF i a s, of nobody nobody nobody] w d by auto
  with i a s r show ?thesis
    by (intro conjI)
qed

section \<open>Scheduling\<close>

text \<open>
  Claim C9. In a pool built for \<open>n \<ge> 1\<close> workers the distribution has the bounds
  \<open>0\<close> and \<open>n - 1\<close>; \<^verbatim>\<open>schedule\<close> with the number \<open>r\<close> drawn from it calls
  \<^verbatim>\<open>submit\<close> on context \<open>r\<close>, and \<^verbatim>\<open>submit\<close> first enqueues the node on that
  context's submission queue and then calls \<^verbatim>\<open>notify_all\<close>.
\<close>

theorem noisy_submission:
  assumes r: "reachable n p" and n: "n \<noteq> 0" and d: "in_support (m_dist p) r"
  shows "m_dist p = (0, n - 1) \<and> unat r < length (m_contexts p) \<and>
    m_contexts p ! unat r = unat r \<and>
    schedule r node p = Some (submit (unat r) node p) \<and>
    submit c node p = p\<lparr>trace := trace p @ [(External, Enqueue c node), (External, NotifyAll)]\<rparr>"
proof -
  have f: "m_dist p = (0, n - 1)" "m_contexts p = [0..<unat n]"
    using reachable_facade [OF r] by simp_all
  have "r \<le> n - 1"
    using d f by (simp add: in_support_def)
  then have l: "unat r < unat n"
    using n drawn_index_less by simp
  show ?thesis
    using f l by (simp add: schedule_def submit_def emit_def)
qed

theorem noisy_submission_witness:
  "reachable 2 two_thieves \<and> (2::u64) \<noteq> 0 \<and> in_support (m_dist two_thieves) 1 \<and>
   schedule 1 [7, 8] two_thieves =
     Some (two_thieves\<lparr>trace := trace two_thieves @
       [(External, Enqueue 1 [7, 8]), (External, NotifyAll)]\<rparr>)"
proof -
  have r: "reachable 2 two_thieves"
    using exec_reachable [OF reachable_init two_thieves_exec] .
  have n: "(2::u64) \<noteq> 0"
    by simp
  have d: "in_support (m_dist two_thieves) 1"
    by (simp add: in_support_def two_thieves_def)
  show ?thesis
    using noisy_submission [OF r n d, of "[7, 8]" 1] r d by simp
qed

text \<open>
  Claim C10. For \<open>n = 0\<close> the upper bound \<open>n - 1\<close> of the distribution wraps to
  \<open>2^64 - 1\<close>, every number can be drawn, the vector of contexts is empty and every
  call of \<^verbatim>\<open>schedule\<close> indexes it out of bounds. For \<open>n \<ge> 1\<close> every number drawn
  lies in \<open>[0, n - 1]\<close> and indexes the vector within its length.
\<close>

theorem worker_count_precondition:
  "(reachable 0 p \<longrightarrow>
      m_dist p = (0, 0 - 1) \<and> unat (snd (m_dist p)) = 2 ^ 64 - 1 \<and>
      in_support (m_dist p) r \<and> m_contexts p = [] \<and> schedule r node p = None) \<and>
   (n \<noteq> 0 \<and> reachable n q \<and> in_support (m_dist q) r \<longrightarrow>
      unat (fst (m_dist q)) = 0 \<and> unat (snd (m_dist q)) = unat n - 1 \<and>
      length (m_contexts q) = unat n \<and> unat r < length (m_contexts q) \<and>
      schedule r node q \<noteq> None)"
proof (intro conjI impI)
  assume r: "reachable 0 p"
  have f: "m_dist p = (0, 0 - 1)" "m_contexts p = [0..<unat (0::u64)]"
    using reachable_facade [OF r] by simp_all
  show "m_dist p = (0, 0 - 1)"
    using f by simp
  show "unat (snd (m_dist p)) = 2 ^ 64 - 1"
    using f unat_max_u64 by simp
  show "in_support (m_dist p) r"
    using f by (simp add: in_support_def)
  show "m_contexts p = []"
    using f by simp
  then show "schedule r node p = None"
    by (simp add: schedule_def)
next
  assume h: "n \<noteq> 0 \<and> reachable n q \<and> in_support (m_dist q) r"
  then have f: "m_dist q = (0, n - 1)" "m_contexts q = [0..<unat n]"
    using reachable_facade [of n q] by simp_all
  have "r \<le> n - 1"
    using h f by (simp add: in_support_def)
  then have l: "unat r < unat n"
    using h drawn_index_less by simp
  show "unat (fst (m_dist q)) = 0"
    using f by simp
  show "unat (snd (m_dist q)) = unat n - 1"
    using f h by (simp add: unat_minus_one)
  show "length (m_contexts q) = unat n"
    using f by simp
  show "unat r < length (m_contexts q)"
    using f l by simp
  then show "schedule r node q \<noteq> None"
    by (simp add: schedule_def)
qed

theorem worker_count_precondition_witness:
  "reachable 0 (lazy_pool_ctor 0) \<and>
   m_dist (lazy_pool_ctor 0) = (0, 18446744073709551615) \<and>
   schedule 0 [7] (lazy_pool_ctor 0) = None \<and>
   (2::u64) \<noteq> 0 \<and> reachable 2 two_thieves \<and> in_support (m_dist two_thieves) 1 \<and>
   unat (1::u64) < length (m_contexts two_thieves) \<and> schedule 1 [7] two_thieves \<noteq> None"
proof -
  have r0: "reachable 0 (lazy_pool_ctor 0)"
    by (rule reachable_init)
  have r: "reachable 2 two_thieves"
    using exec_reachable [OF reachable_init two_thieves_exec] .
  have d: "in_support (m_dist two_thieves) 1"
    by (simp add: in_support_def two_thieves_def)
  note w = worker_count_precondition [of "lazy_pool_ctor 0" 0 "[7]" 2 two_thieves]
  note w1 = worker_count_precondition [of "lazy_pool_ctor 0" 1 "[7]" 2 two_thieves]
  show ?thesis
    using w w1 r0 r d by simp
qed

end
